theory Spec2Isabelle
  imports Complex_Main
begin

section \<open>The tensor operations the notebooks call\<close>

text \<open>
  The notebooks compute on the tensor library's arrays. A two-dimensional array is the
  list of its rows, a one-dimensional array a list, and every entry a real number: the
  development is about the arithmetic the code asks for, in exact arithmetic, and says
  nothing about rounding, overflow or underflow. An array of the library has at least
  one entry; where an operation has no value (the maximum of no entries, two shapes that
  do not fit) the result is \<open>None\<close>, the library's exception.
\<close>

type_synonym ndarray = "real list list"

text \<open>\<^verbatim>\<open>nd.max(a)\<close> with no axis: the maximum over all entries of the array.\<close>

definition nd_max :: "ndarray \<Rightarrow> real option" where
  "nd_max a = (case concat a of [] \<Rightarrow> None | v # vs \<Rightarrow> Some (fold max vs v))"

text \<open>\<^verbatim>\<open>a - m\<close> for a one-entry array \<open>m\<close>: the entry is subtracted everywhere.\<close>

definition nd_sub_scalar :: "ndarray \<Rightarrow> real \<Rightarrow> ndarray" where
  "nd_sub_scalar a m = map (map (\<lambda>x. x - m)) a"

definition nd_exp :: "ndarray \<Rightarrow> ndarray" where
  "nd_exp a = map (map exp) a"

text \<open>
  \<^verbatim>\<open>nd.log\<close>: the logarithm of every entry. Only the logarithm of a positive entry
  means what the library computes.
\<close>

definition nd_log :: "ndarray \<Rightarrow> ndarray" where
  "nd_log a = map (map ln) a"

text \<open>\<^verbatim>\<open>nd.sum(a, axis=0, exclude=True)\<close>: the sum over every axis but the first, one
  sum per row.\<close>

definition nd_sum_exclude0 :: "ndarray \<Rightarrow> real list" where
  "nd_sum_exclude0 a = map sum_list a"

text \<open>\<^verbatim>\<open>v.reshape((-1,1))\<close>: a vector as a column.\<close>

definition reshape_col :: "real list \<Rightarrow> ndarray" where
  "reshape_col v = map (\<lambda>s. [s]) v"

text \<open>
  An operator between two arrays works entry by entry when the shapes agree; an axis of
  length one on either side is stretched to the other side's length; any other pair of
  shapes is refused.
\<close>

definition broadcast_row :: "('a \<Rightarrow> 'b \<Rightarrow> 'c) \<Rightarrow> 'a list \<Rightarrow> 'b list \<Rightarrow> 'c list option" where
  "broadcast_row f a b =
     (if length a = length b then Some (map2 f a b)
      else if length a = 1 then Some (map (\<lambda>y. f (hd a) y) b)
      else if length b = 1 then Some (map (\<lambda>x. f x (hd b)) a)
      else None)"

definition broadcast_op :: "(real \<Rightarrow> real \<Rightarrow> real) \<Rightarrow> ndarray \<Rightarrow> ndarray \<Rightarrow> ndarray option" where
  "broadcast_op f a b =
     (if length a = length b then those (map2 (broadcast_row f) a b)
      else if length a = 1 then those (map (\<lambda>y. broadcast_row f (hd a) y) b)
      else if length b = 1 then those (map (\<lambda>x. broadcast_row f x (hd b)) a)
      else None)"

text \<open>\<^verbatim>\<open>nd.mean(v).asscalar()\<close> of a vector.\<close>

definition nd_mean :: "real list \<Rightarrow> real" where
  "nd_mean v = sum_list v / real (length v)"

text \<open>
  \<^verbatim>\<open>nd.argmax(a, axis=1)\<close>: for every row the index of its largest entry, the first
  such index when several entries are largest.
\<close>

fun argmax_from :: "nat \<Rightarrow> real \<Rightarrow> nat \<Rightarrow> real list \<Rightarrow> nat" where
  "argmax_from best bv i [] = best"
| "argmax_from best bv i (x # xs) =
     (if bv < x then argmax_from i x (Suc i) xs else argmax_from best bv (Suc i) xs)"

definition argmax :: "real list \<Rightarrow> nat" where
  "argmax row = (case row of [] \<Rightarrow> 0 | x # xs \<Rightarrow> argmax_from 0 x 1 xs)"


text \<open>\<^verbatim>\<open>nd.one_hot(label, depth)\<close>: one row per label, 1 at the label's index.\<close>

definition nd_one_hot :: "nat list \<Rightarrow> nat \<Rightarrow> ndarray" where
  "nd_one_hot labels depth = map (\<lambda>l. map (\<lambda>j. if j = l then 1 else 0) [0..<depth]) labels"

section \<open>Softmax\<close>

text \<open>
  \<^verbatim>\<open>
  def softmax(y_linear):
      exp = nd.exp(y_linear-nd.max(y_linear))
      partition =nd.sum(exp, axis=0, exclude=True).reshape((-1,1))
      return exp / partition
  \<close>
  \<open>softmax_arg\<close> is the argument of \<^verbatim>\<open>nd.exp\<close> in the first line.
\<close>

definition softmax_arg :: "ndarray \<Rightarrow> ndarray option" where
  "softmax_arg y_linear = map_option (nd_sub_scalar y_linear) (nd_max y_linear)"

definition softmax :: "ndarray \<Rightarrow> ndarray option" where
  "softmax y_linear =
     Option.bind (softmax_arg y_linear) (\<lambda>arg.
       let exps = nd_exp arg;
           partition = reshape_col (nd_sum_exclude0 exps)
       in broadcast_op (/) exps partition)"

section \<open>Cross-entropy\<close>

text \<open>
  \<^verbatim>\<open>
  def cross_entropy(yhat, y):
      return - nd.sum(y * nd.log(yhat), axis=0, exclude=True)
  \<close>
\<close>

definition cross_entropy :: "ndarray \<Rightarrow> ndarray \<Rightarrow> real list option" where
  "cross_entropy yhat y =
     map_option (\<lambda>prod. map uminus (nd_sum_exclude0 prod)) (broadcast_op (*) y (nd_log yhat))"

section \<open>Stochastic gradient descent\<close>

text \<open>
  An array of the library is an object: the parameter list holds references, and
  \<^verbatim>\<open>param[:] = ...\<close> writes into the object a reference points to. The heap maps a
  reference to its object: the value buffer and the gradient buffer that
  \<^verbatim>\<open>attach_grad\<close> gave it (\<open>None\<close> before \<^verbatim>\<open>attach_grad\<close>, where
  \<^verbatim>\<open>param.grad\<close> is \<^verbatim>\<open>None\<close> and the product with \<^verbatim>\<open>lr\<close> raises). The arrays
  of one shape are a real vector space \<open>'v\<close>.
  \<^verbatim>\<open>
  def SGD(params, lr):
      for param in params:
          param[:] = param - lr * param.grad
  \<close>
\<close>

record 'v nd_object =
  val :: 'v
  grad :: "'v option"

type_synonym 'v heap = "nat \<Rightarrow> 'v nd_object"

fun SGD :: "nat list \<Rightarrow> real \<Rightarrow> ('v::real_vector) heap \<Rightarrow> 'v heap option" where
  "SGD [] lr h = Some h"
| "SGD (param # params) lr h =
     (case grad (h param) of
        None \<Rightarrow> None
      | Some g \<Rightarrow> SGD params lr (h(param := (h param)\<lparr>val := val (h param) - lr *\<^sub>R g\<rparr>)))"

section \<open>Accuracy\<close>




section \<open>The moving average of the loss in the training loops\<close>

text \<open>
  The softmax notebook:
  \<^verbatim>\<open>
  moving_loss = 0.
  smoothing_constant = .01
  for e in range(epochs):
      train_data.reset()
      for i, batch in enumerate(train_data):
          ...
          curr_loss = nd.mean(loss).asscalar()
          moving_loss = (curr_loss if ((i == 0) and (e == 0))
                         else (1 - smoothing_constant) * moving_loss + (smoothing_constant) * curr_loss)
  \<close>
  The loops are run on the loss vectors of the batches, epoch by epoch: the forward
  pass, the gradients and the update do not touch \<^verbatim>\<open>moving_loss\<close>. The result is
  the value of \<^verbatim>\<open>moving_loss\<close> after every batch, in the order the batches run.
\<close>

definition smoothing_constant :: real where
  "smoothing_constant = 0.01"

fun softmax_batch_loop :: "nat \<Rightarrow> nat \<Rightarrow> real list list \<Rightarrow> real \<Rightarrow> real list" where
  "softmax_batch_loop e i [] moving_loss = []"
| "softmax_batch_loop e i (loss # rest) moving_loss =
     (let curr_loss = nd_mean loss;
          moving_loss' = (if i = 0 \<and> e = 0 then curr_loss
                          else (1 - smoothing_constant) * moving_loss + smoothing_constant * curr_loss)
      in moving_loss' # softmax_batch_loop e (Suc i) rest moving_loss')"

fun softmax_epoch_loop :: "nat \<Rightarrow> real list list list \<Rightarrow> real \<Rightarrow> real list" where
  "softmax_epoch_loop e [] moving_loss = []"
| "softmax_epoch_loop e (batches # rest) moving_loss =
     (let steps = softmax_batch_loop e 0 batches moving_loss
      in steps @ softmax_epoch_loop (Suc e) rest (last (moving_loss # steps)))"

definition softmax_training :: "real list list list \<Rightarrow> real list" where
  "softmax_training epochs = softmax_epoch_loop 0 epochs 0"

text \<open>
  The linear regression notebook, where \<^verbatim>\<open>mse\<close> is the one-entry array that
  \<^verbatim>\<open>square_loss\<close> returned for the batch:
  \<^verbatim>\<open>
  moving_loss = 0.
  for e in range(epochs):
      train_data.reset()
      for i, batch in enumerate(train_data):
          ...
          if (i == 0) and (e == 0):
              moving_loss = nd.mean(mse).asscalar()
          else:
              moving_loss = .99 * moving_loss + .01 * nd.mean(mse).asscalar()
  \<close>
\<close>

fun linreg_batch_loop :: "nat \<Rightarrow> nat \<Rightarrow> real list \<Rightarrow> real \<Rightarrow> real list" where
  "linreg_batch_loop e i [] moving_loss = []"
| "linreg_batch_loop e i (mse # rest) moving_loss =
     (let moving_loss' = (if i = 0 \<and> e = 0 then nd_mean [mse]
                          else 0.99 * moving_loss + 0.01 * nd_mean [mse])
      in moving_loss' # linreg_batch_loop e (Suc i) rest moving_loss')"

fun linreg_epoch_loop :: "nat \<Rightarrow> real list list \<Rightarrow> real \<Rightarrow> real list" where
  "linreg_epoch_loop e [] moving_loss = []"
| "linreg_epoch_loop e (batches # rest) moving_loss =
     (let steps = linreg_batch_loop e 0 batches moving_loss
      in steps @ linreg_epoch_loop (Suc e) rest (last (moving_loss # steps)))"

definition linreg_training :: "real list list \<Rightarrow> real list" where
  "linreg_training epochs = linreg_epoch_loop 0 epochs 0"

section \<open>The batch iterator\<close>

text \<open>
  Modelled from the spec: the batch iterator \<^verbatim>\<open>mx.io.NDArrayIter\<close> is the tensor
  library's class and its code is not part of the notebooks, which only call it. The
  spec's words: a restartable sequence of fixed-size batches over a dataset, with a
  position; the examples in their current order, the batch size and the position.
\<close>

record 'a NDArrayIter =
  examples :: "'a list"
  batch_size :: nat
  cursor :: nat

text \<open>
  Modelled from the spec: "On explicit reset, reshuffles the dataset order and resets
  position to zero." The reshuffling drawn at this reset is the argument \<open>shuffle\<close>.
\<close>

definition reset :: "('a list \<Rightarrow> 'a list) \<Rightarrow> 'a NDArrayIter \<Rightarrow> 'a NDArrayIter" where
  "reset shuffle it = it\<lparr>examples := shuffle (examples it), cursor := 0\<rparr>"

text \<open>
  Modelled from the spec: "next() returns the next batch of the configured batch size",
  and an exhausted iterator has no next batch. The spec leaves open what the last batch
  is when the batch size does not divide the dataset size; here it is the examples that
  remain.
\<close>

definition next_batch :: "'a NDArrayIter \<Rightarrow> ('a list \<times> 'a NDArrayIter) option" where
  "next_batch it =
     (if cursor it < length (examples it)
      then Some (take (batch_size it) (drop (cursor it) (examples it)),
                 it\<lparr>cursor := cursor it + batch_size it\<rparr>)
      else None)"

text \<open>
  \<^verbatim>\<open>for batch in train_data:\<close> asks for the next batch until there is none. The
  result is the batches of the pass and the iterator the pass leaves behind; a pass that
  never ends has the value \<open>None\<close>.
\<close>

partial_function (option) iterate :: "'a NDArrayIter \<Rightarrow> ('a list list \<times> 'a NDArrayIter) option" where
  "iterate it =
     (case next_batch it of
        None \<Rightarrow> Some ([], it)
      | Some (b, it') \<Rightarrow> Option.bind (iterate it') (\<lambda>(bs, it''). Some (b # bs, it'')))"

text \<open>
  \<^verbatim>\<open>
  counter = 0
  for batch in train_data:
      counter += 1
  \<close>
\<close>

definition count_batches :: "'a NDArrayIter \<Rightarrow> (nat \<times> 'a NDArrayIter) option" where
  "count_batches it = map_option (\<lambda>(bs, it'). (length bs, it')) (iterate it)"

section \<open>The properties in the words of the specification\<close>


text \<open>One constant per row, added to every entry of the row.\<close>

definition add_row_consts :: "real list \<Rightarrow> ndarray \<Rightarrow> ndarray" where
  "add_row_consts cs scores = map2 (\<lambda>c row. map (\<lambda>x. x + c) row) cs scores"

text \<open>Two arrays of the same shape: as many rows, and row by row as many entries.\<close>

definition same_shape :: "ndarray \<Rightarrow> ndarray \<Rightarrow> bool" where
  "same_shape a b = list_all2 (\<lambda>r s. length r = length s) a b"

text \<open>A probability vector with positive entries.\<close>

definition prob_vector :: "real list \<Rightarrow> bool" where
  "prob_vector p = (p \<noteq> [] \<and> list_all (\<lambda>x. 0 < x) p \<and> sum_list p = 1)"

text \<open>The cross-entropy of a prediction against the one-hot label at its own argmax.\<close>

definition own_label_cross_entropy :: "real list \<Rightarrow> real list option" where
  "own_label_cross_entropy p = cross_entropy [p] (nd_one_hot [argmax p] (length p))"




text \<open>
  The exponentially weighted moving average in the specification's words: the first
  loss seeds the average (while \<open>seed\<close> holds), every later loss \<open>c\<close> turns the
  average \<open>avg\<close> into \<open>s * c + (1 - s) * avg\<close>. The result is the average after
  every loss.
\<close>

fun ewma :: "real \<Rightarrow> bool \<Rightarrow> real \<Rightarrow> real list \<Rightarrow> real list" where
  "ewma s seed avg [] = []"
| "ewma s seed avg (c # cs) =
     (let avg' = (if seed then c else s * c + (1 - s) * avg) in avg' # ewma s False avg' cs)"

section \<open>Softmax: what is subtracted, what comes out\<close>

lemma nd_max_Some:
  assumes "concat a \<noteq> []"
  shows "nd_max a = Some (Max (set (concat a)))"
proof -
  from assms obtain v vs where c: "concat a = v # vs" by (cases "concat a") auto
  have "fold max vs v = Max (set (v # vs))" by (simp only: Max.set_eq_fold)
  with c show ?thesis by (simp add: nd_max_def)
qed

lemma nd_max_None:
  assumes "concat a = []"
  shows "nd_max a = None"
  unfolding nd_max_def by (simp only: assms list.case)

lemma those_map_Some: "those (map (\<lambda>x. Some (g x)) xs) = Some (map g xs)"
  by (induction xs) simp_all

lemma broadcast_row_singleton:
  "broadcast_row f r [s] = Some (map (\<lambda>x. f x s) r)"
proof (cases r)
  case Nil
  then show ?thesis by (simp add: broadcast_row_def)
next
  case (Cons x xs)
  then show ?thesis by (cases xs) (simp_all add: broadcast_row_def)
qed

lemma map2_same: "map2 f xs (map h xs) = map (\<lambda>x. f x (h x)) xs"
  by (induction xs) simp_all

lemma broadcast_op_col:
  "broadcast_op f a (reshape_col (map h a)) = Some (map (\<lambda>r. map (\<lambda>x. f x (h r)) r) a)"
proof -
  have "map2 (broadcast_row f) a (map (\<lambda>r. [h r]) a)
          = map (\<lambda>r. Some (map (\<lambda>x. f x (h r)) r)) a"
    by (simp only: map2_same broadcast_row_singleton)
  then show ?thesis
    by (simp add: broadcast_op_def reshape_col_def comp_def those_map_Some)
qed

lemma softmax_arg_Some:
  assumes "concat a \<noteq> []"
  shows "softmax_arg a = Some (nd_sub_scalar a (Max (set (concat a))))"
  by (simp add: softmax_arg_def nd_max_Some [OF assms])

lemma softmax_unfold:
  assumes "concat a \<noteq> []"
  shows "softmax a = Some (map (\<lambda>r. map (\<lambda>x. exp (x - Max (set (concat a)))
            / sum_list (map (\<lambda>x'. exp (x' - Max (set (concat a)))) r)) r) a)"
proof -
  let ?m = "Max (set (concat a))"
  let ?e = "nd_exp (nd_sub_scalar a ?m)"
  have "broadcast_op (/) ?e (reshape_col (map sum_list ?e))
          = Some (map (\<lambda>r. map (\<lambda>x. x / sum_list r) r) ?e)"
    by (rule broadcast_op_col)
  also have "map (\<lambda>r. map (\<lambda>x. x / sum_list r) r) ?e
      = map (\<lambda>r. map (\<lambda>x. exp (x - ?m) / sum_list (map (\<lambda>x'. exp (x' - ?m)) r)) r) a"
    by (simp add: nd_exp_def nd_sub_scalar_def comp_def)
  finally show ?thesis
    by (simp add: softmax_def softmax_arg_Some [OF assms] nd_sum_exclude0_def)
qed

lemma softmax_None: "concat a = [] \<Longrightarrow> softmax a = None"
  by (simp add: softmax_def softmax_arg_def nd_max_None)


lemma sum_list_divide: "sum_list (map (\<lambda>x. f x / z) r) = sum_list (map f r) / (z::real)"
  by (induction r) (simp_all add: add_divide_distrib)








lemma sum_list_exp_shift:
  "sum_list (map (\<lambda>x. exp (x - m)) r) = sum_list (map exp r) / exp (m::real)"
  by (simp add: exp_diff sum_list_divide)

lemma softmax_row_shift:
  "map (\<lambda>x. exp (x - m) / sum_list (map (\<lambda>x'. exp (x' - m)) r)) r
     = map (\<lambda>x. exp x / sum_list (map exp r)) (r :: real list)"
proof -
  have "exp (x - m) / (Z / exp m) = exp x / Z" for x Z :: real
    by (simp add: exp_diff)
  then show ?thesis by (simp only: sum_list_exp_shift)
qed

lemma softmax_closed_form:
  assumes "concat a \<noteq> []"
  shows "softmax a = Some (map (\<lambda>r. map (\<lambda>x. exp x / sum_list (map exp r)) r) a)"
  by (simp only: softmax_unfold [OF assms] softmax_row_shift)

lemma softmax_row_add_const:
  "map (\<lambda>x. exp x / sum_list (map exp (map (\<lambda>x. x + c) r))) (map (\<lambda>x. x + c) r)
     = map (\<lambda>x. exp x / sum_list (map exp r)) (r :: real list)"
proof -
  have "map (\<lambda>x. exp x / sum_list (map exp (map (\<lambda>x. x + c) r))) (map (\<lambda>x. x + c) r)
      = map (\<lambda>x. exp (x - (- c)) / sum_list (map (\<lambda>x'. exp (x' - (- c))) r)) r"
    by (simp add: comp_def)
  then show ?thesis by (simp only: softmax_row_shift)
qed

lemma closed_form_add_row_consts:
  assumes "length cs = length S"
  shows "map (\<lambda>r. map (\<lambda>x. exp x / sum_list (map exp r)) r) (add_row_consts cs S)
       = map (\<lambda>r. map (\<lambda>x. exp x / sum_list (map exp r)) r) S"
  using assms unfolding add_row_consts_def
proof (induction cs S rule: list_induct2)
  case Nil
  then show ?case by simp
next
  case (Cons c cs r S)
  then show ?case using softmax_row_add_const [of c r] by simp
qed

lemma concat_add_row_consts:
  assumes "length cs = length S"
  shows "concat (add_row_consts cs S) = [] \<longleftrightarrow> concat S = []"
  using assms unfolding add_row_consts_def
  by (induction cs S rule: list_induct2) simp_all

text \<open>
  Claim C8. For every score matrix and every assignment of one constant per row, softmax
  of the matrix with each row's constant added to the row's entries is, in exact
  arithmetic, the softmax of the matrix itself (also where softmax has no value).
\<close>

theorem softmax_shift_invariant:
  assumes "length cs = length S"
  shows "softmax (add_row_consts cs S) = softmax S"
proof (cases "concat S = []")
  case True
  then show ?thesis
    using concat_add_row_consts [OF assms] by (simp add: softmax_None)
next
  case False
  then have ne: "concat (add_row_consts cs S) \<noteq> []"
    using concat_add_row_consts [OF assms] by simp
  show ?thesis
    using softmax_closed_form [OF ne] softmax_closed_form [OF False]
      closed_form_add_row_consts [OF assms]
    by simp
qed

theorem softmax_shift_invariant_witness:
  "softmax (add_row_consts [5, - 2] [[0, 0], [1, 1]]) = softmax [[0, 0], [1, 1]] \<and>
   add_row_consts [5, - 2] [[0, 0], [1, 1]] = [[5, 5], [- 1, - 1]] \<and>
   softmax [[0, 0], [1, 1]] = Some [[1/2, 1/2], [1/2, 1/2]]"
  using softmax_shift_invariant [of "[5, - 2]" "[[0, 0], [1, 1]]"]
  by (simp add: add_row_consts_def softmax_def softmax_arg_def nd_max_def nd_sub_scalar_def
      nd_exp_def nd_sum_exclude0_def reshape_col_def broadcast_op_def broadcast_row_def)

section \<open>Stochastic gradient descent: the update and its frame\<close>

lemma SGD_grad_kept:
  "SGD params lr h = Some h' \<Longrightarrow> grad (h' a) = grad (h a)"
proof (induction params arbitrary: h)
  case Nil
  then show ?case by simp
next
  case (Cons p params)
  then obtain g where g: "grad (h p) = Some g" by (auto split: option.splits)
  let ?h = "h(p := (h p)\<lparr>val := val (h p) - lr *\<^sub>R g\<rparr>)"
  from Cons.prems g have "SGD params lr ?h = Some h'" by simp
  from Cons.IH [OF this] show ?case by (simp split: if_splits)
qed

lemma SGD_others_kept:
  "SGD params lr h = Some h' \<Longrightarrow> a \<notin> set params \<Longrightarrow> h' a = h a"
proof (induction params arbitrary: h)
  case Nil
  then show ?case by simp
next
  case (Cons p params)
  then obtain g where g: "grad (h p) = Some g" by (auto split: option.splits)
  let ?h = "h(p := (h p)\<lparr>val := val (h p) - lr *\<^sub>R g\<rparr>)"
  from Cons.prems g have "SGD params lr ?h = Some h'" by simp
  from Cons.IH [OF this] Cons.prems(2) show ?case by simp
qed

lemma SGD_returns:
  "\<forall>p \<in> set params. grad (h p) \<noteq> None \<Longrightarrow> \<exists>h'. SGD params lr h = Some h'"
proof (induction params arbitrary: h)
  case Nil
  then show ?case by simp
next
  case (Cons p params)
  then obtain g where g: "grad (h p) = Some g" by auto
  let ?h = "h(p := (h p)\<lparr>val := val (h p) - lr *\<^sub>R g\<rparr>)"
  have "\<forall>q \<in> set params. grad (?h q) \<noteq> None" using Cons.prems by simp
  from Cons.IH [OF this] obtain h' where "SGD params lr ?h = Some h'" by blast
  then have "SGD (p # params) lr h = Some h'" using g by simp
  then show ?case by blast
qed

lemma SGD_distinct_update:
  "SGD params lr h = Some h' \<Longrightarrow> distinct params \<Longrightarrow> p \<in> set params \<Longrightarrow>
     grad (h p) = Some g \<Longrightarrow> val (h' p) = val (h p) - lr *\<^sub>R g"
proof (induction params arbitrary: h)
  case Nil
  then show ?case by simp
next
  case (Cons q params)
  then obtain gq where gq: "grad (h q) = Some gq" by (auto split: option.splits)
  let ?h = "h(q := (h q)\<lparr>val := val (h q) - lr *\<^sub>R gq\<rparr>)"
  from Cons.prems(1) gq have run: "SGD params lr ?h = Some h'" by simp
  show ?case
  proof (cases "p = q")
    case True
    with Cons.prems(2) have "p \<notin> set params" by simp
    from SGD_others_kept [OF run this] True gq Cons.prems(4) show ?thesis by simp
  next
    case False
    with Cons.prems(3) have "p \<in> set params" by simp
    moreover from Cons.prems(2) have "distinct params" by simp
    moreover from False Cons.prems(4) have "grad (?h p) = Some g" by simp
    ultimately have "val (h' p) = val (?h p) - lr *\<^sub>R g"
      using Cons.IH [OF run] by blast
    with False show ?thesis by simp
  qed
qed

text \<open>
  A parameter the list names twice is updated twice: with the list \<open>[0, 0]\<close>, value 0,
  gradient 1 and learning rate 1 the value after the call is -2, not 0 - 1 * 1 = -1.
\<close>

theorem SGD_repeated_parameter:
  "map_option (\<lambda>h'. val (h' 0)) (SGD [0, 0] 1 (\<lambda>a. \<lparr>val = 0 :: real, grad = Some 1\<rparr>)) = Some (- 2)
   \<and> (0 :: real) - 1 *\<^sub>R 1 \<noteq> - 2"
  by simp

text \<open>
  Claim C5, amended. For every parameter list that names no parameter twice, every
  gradient attached, and every learning rate, SGD returns, and afterwards the value of
  each listed parameter is its value before the call minus the learning rate times its
  gradient before the call.
\<close>

theorem SGD_update:
  assumes "distinct params" and "\<forall>p \<in> set params. grad (h p) \<noteq> None"
  shows "\<exists>h'. SGD params lr h = Some h' \<and>
           (\<forall>p \<in> set params. \<exists>g. grad (h p) = Some g \<and> val (h' p) = val (h p) - lr *\<^sub>R g)"
proof -
  from SGD_returns [OF assms(2)] obtain h' where run: "SGD params lr h = Some h'" by blast
  have "\<exists>g. grad (h p) = Some g \<and> val (h' p) = val (h p) - lr *\<^sub>R g" if "p \<in> set params" for p
  proof -
    from assms(2) that obtain g where g: "grad (h p) = Some g" by auto
    from SGD_distinct_update [OF run assms(1) that g] g show ?thesis by blast
  qed
  with run show ?thesis by blast
qed

theorem SGD_update_witness:
  "\<exists>h'. SGD [0, 1] (1/2) (\<lambda>a. \<lparr>val = 3 :: real, grad = Some 4\<rparr>) = Some h' \<and>
         val (h' 0) = 1 \<and> val (h' 1) = 1"
  using SGD_update [of "[0, 1]" "\<lambda>a. \<lparr>val = 3 :: real, grad = Some 4\<rparr>" "1/2"] by simp

text \<open>
  Claim C10. When every listed parameter has a gradient attached, SGD returns, and
  afterwards every gradient buffer holds what it held before the call and every object
  the list does not name is what it was: only the values of listed parameters change.
\<close>

theorem SGD_frame:
  assumes "\<forall>p \<in> set params. grad (h p) \<noteq> None"
  shows "\<exists>h'. SGD params lr h = Some h' \<and>
           (\<forall>a. grad (h' a) = grad (h a)) \<and> (\<forall>a. a \<notin> set params \<longrightarrow> h' a = h a)"
proof -
  from SGD_returns [OF assms] obtain h' where run: "SGD params lr h = Some h'" by blast
  then show ?thesis using SGD_grad_kept [OF run] SGD_others_kept [OF run] by blast
qed

theorem SGD_frame_witness:
  "\<exists>h'. SGD [0, 1] (1/2) (\<lambda>a. \<lparr>val = 3 :: real, grad = Some 4\<rparr>) = Some h' \<and>
         grad (h' 0) = Some 4 \<and> grad (h' 1) = Some 4 \<and> h' 2 = \<lparr>val = 3, grad = Some 4\<rparr>"
  using SGD_frame [of "[0, 1]" "\<lambda>a. \<lparr>val = 3 :: real, grad = Some 4\<rparr>" "1/2"] by simp

section \<open>Cross-entropy: one loss per example\<close>

lemma broadcast_op_same_shape:
  assumes "list_all2 (\<lambda>r s. length r = length s) a b"
  shows "broadcast_op f a b = Some (map2 (map2 f) a b)"
proof -
  from assms have "those (map2 (broadcast_row f) a b) = Some (map2 (map2 f) a b)"
    by (induction rule: list_all2_induct) (simp_all add: broadcast_row_def)
  moreover from assms have "length a = length b" by (rule list_all2_lengthD)
  ultimately show ?thesis by (simp add: broadcast_op_def)
qed

lemma cross_entropy_same_shape:
  assumes "same_shape yhat y"
  shows "cross_entropy yhat y
           = Some (map2 (\<lambda>yr pr. - sum_list (map2 (*) yr (map ln pr))) y yhat)"
proof -
  from assms have "list_all2 (\<lambda>r s. length r = length s) y yhat"
    unfolding same_shape_def by (simp add: list_all2_conv_all_nth)
  then have "list_all2 (\<lambda>r s. length r = length s) y (nd_log yhat)"
    unfolding nd_log_def by (simp add: list_all2_conv_all_nth)
  from broadcast_op_same_shape [OF this]
  have "broadcast_op (*) y (nd_log yhat) = Some (map2 (map2 (*)) y (nd_log yhat))" .
  then show ?thesis
    by (simp add: cross_entropy_def nd_sum_exclude0_def nd_log_def zip_map2 comp_def case_prod_unfold)
qed

lemma sum_list_map2_nth:
  assumes "length ys = length ps"
  shows "sum_list (map2 (*) ys (map ln ps)) = (\<Sum>j<length ps. ys ! j * ln (ps ! j))"
proof -
  have "sum_list (map2 (*) ys (map ln ps))
      = (\<Sum>j = 0..<length ps. map2 (*) ys (map ln ps) ! j)"
    using assms by (simp add: sum_list_sum_nth)
  also have "\<dots> = (\<Sum>j = 0..<length ps. ys ! j * ln (ps ! j))"
    using assms by (intro sum.cong) simp_all
  finally show ?thesis by (simp add: atLeast0LessThan)
qed

lemma nd_mean_first_batch: "softmax_training [[loss]] = [nd_mean loss]"
  by (simp add: softmax_training_def)

text \<open>
  Claim C6. For every matrix of predicted probabilities (positive entries) and every
  label matrix of the same shape, cross-entropy returns a vector with one entry per
  example, entry i being the negative sum over the classes j of y[i][j] times the
  logarithm of yhat[i][j]; the mean over the batch is taken afterwards by the training
  loop, whose moving loss after a first batch with this loss vector is the vector's mean.
\<close>

theorem cross_entropy_per_example:
  assumes "same_shape yhat y" and "\<forall>r \<in> set yhat. \<forall>p \<in> set r. 0 < p"
  shows "\<exists>loss. cross_entropy yhat y = Some loss \<and> length loss = length yhat \<and>
           (\<forall>i < length yhat. loss ! i = - (\<Sum>j < length (yhat ! i). y ! i ! j * ln (yhat ! i ! j))) \<and>
           softmax_training [[loss]] = [sum_list loss / real (length loss)]"
proof -
  let ?loss = "map2 (\<lambda>yr pr. - sum_list (map2 (*) yr (map ln pr))) y yhat"
  from assms(1) have len: "length yhat = length y"
    and rows: "\<And>i. i < length yhat \<Longrightarrow> length (yhat ! i) = length (y ! i)"
    unfolding same_shape_def by (simp_all add: list_all2_conv_all_nth)
  have run: "cross_entropy yhat y = Some ?loss"
    by (rule cross_entropy_same_shape [OF assms(1)])
  have l: "length ?loss = length yhat" using len by simp
  have "?loss ! i = - (\<Sum>j < length (yhat ! i). y ! i ! j * ln (yhat ! i ! j))"
    if "i < length yhat" for i
  proof -
    have "?loss ! i = - sum_list (map2 (*) (y ! i) (map ln (yhat ! i)))"
      using that len by simp
    also have "\<dots> = - (\<Sum>j < length (yhat ! i). y ! i ! j * ln (yhat ! i ! j))"
      using rows [OF that] by (simp add: sum_list_map2_nth)
    finally show ?thesis .
  qed
  moreover have "softmax_training [[?loss]] = [sum_list ?loss / real (length ?loss)]"
    by (simp only: nd_mean_first_batch nd_mean_def)
  ultimately show ?thesis using run l by blast
qed

theorem cross_entropy_per_example_witness:
  "\<exists>loss. cross_entropy [[1/2, 1/2], [1/4, 3/4]] [[0, 1], [1, 0]] = Some loss \<and> length loss = 2 \<and>
      loss ! 0 = - ln (1/2) \<and> loss ! 1 = - ln (1/4) \<and>
      softmax_training [[loss]] = [sum_list loss / real (length loss)]"
  using cross_entropy_per_example [of "[[1/2, 1/2], [1/4, 3/4]]" "[[0, 1], [1, 0]]"]
  by (simp add: same_shape_def lessThan_Suc numeral_2_eq_2 less_Suc_eq all_conj_distrib)

section \<open>Cross-entropy against the prediction's own label\<close>

lemma argmax_from_range:
  "argmax_from best bv i xs = best \<or>
   (i \<le> argmax_from best bv i xs \<and> argmax_from best bv i xs < i + length xs)"
proof (induction xs arbitrary: best bv i)
  case Nil
  then show ?case by simp
next
  case (Cons x xs)
  show ?case
  proof (cases "bv < x")
    case True
    with Cons.IH [of i x "Suc i"] show ?thesis by auto
  next
    case False
    with Cons.IH [of best bv "Suc i"] show ?thesis by auto
  qed
qed

lemma argmax_less_length: "row \<noteq> [] \<Longrightarrow> argmax row < length row"
proof (cases row)
  case Nil
  then show "row \<noteq> [] \<Longrightarrow> ?thesis" by simp
next
  case (Cons x xs)
  with argmax_from_range [of 0 x 1 xs] show ?thesis by (auto simp: argmax_def)
qed

lemma argmax_from_greatest:
  "(argmax_from best bv i xs = best \<and> (\<forall>x \<in> set xs. x \<le> bv)) \<or>
   (i \<le> argmax_from best bv i xs \<and> argmax_from best bv i xs < i + length xs \<and>
    bv < xs ! (argmax_from best bv i xs - i) \<and>
    (\<forall>x \<in> set xs. x \<le> xs ! (argmax_from best bv i xs - i)))"
proof (induction xs arbitrary: best bv i)
  case Nil
  then show ?case by simp
next
  case (Cons x xs)
  show ?case
  proof (cases "bv < x")
    case True
    from Cons.IH [of i x "Suc i"] show ?thesis
    proof
      assume "argmax_from i x (Suc i) xs = i \<and> (\<forall>y \<in> set xs. y \<le> x)"
      with True show ?thesis by auto
    next
      assume a: "Suc i \<le> argmax_from i x (Suc i) xs \<and> argmax_from i x (Suc i) xs < Suc i + length xs \<and>
        x < xs ! (argmax_from i x (Suc i) xs - Suc i) \<and>
        (\<forall>y \<in> set xs. y \<le> xs ! (argmax_from i x (Suc i) xs - Suc i))"
      let ?r = "argmax_from i x (Suc i) xs"
      from a have "?r - i = Suc (?r - Suc i)" by arith
      with a True show ?thesis by auto
    qed
  next
    case False
    from Cons.IH [of best bv "Suc i"] show ?thesis
    proof
      assume "argmax_from best bv (Suc i) xs = best \<and> (\<forall>y \<in> set xs. y \<le> bv)"
      with False show ?thesis by auto
    next
      assume a: "Suc i \<le> argmax_from best bv (Suc i) xs \<and> argmax_from best bv (Suc i) xs < Suc i + length xs \<and>
        bv < xs ! (argmax_from best bv (Suc i) xs - Suc i) \<and>
        (\<forall>y \<in> set xs. y \<le> xs ! (argmax_from best bv (Suc i) xs - Suc i))"
      let ?r = "argmax_from best bv (Suc i) xs"
      from a have "?r - i = Suc (?r - Suc i)" by arith
      with a False show ?thesis by auto
    qed
  qed
qed

lemma argmax_greatest: "x \<in> set row \<Longrightarrow> x \<le> row ! argmax row"
proof (cases row)
  case Nil
  then show "x \<in> set row \<Longrightarrow> ?thesis" by simp
next
  case (Cons y ys)
  assume "x \<in> set row"
  with Cons argmax_from_greatest [of 0 y 1 ys] show ?thesis
    by (auto simp: argmax_def)
qed

lemma one_hot_picks:
  assumes "k < length (p :: real list)"
  shows "sum_list (map2 (*) (map (\<lambda>j. if j = k then 1 else 0) [0..<length p]) (map ln p)) = ln (p ! k)"
proof -
  have "sum_list (map2 (*) (map (\<lambda>j. if j = k then 1 else 0) [0..<length p]) (map ln p))
      = (\<Sum>j < length p. (map (\<lambda>j. if j = k then 1 else (0::real)) [0..<length p]) ! j * ln (p ! j))"
    by (rule sum_list_map2_nth) simp
  also have "\<dots> = (\<Sum>j < length p. if j = k then ln (p ! j) else 0)"
    by (intro sum.cong) simp_all
  also have "\<dots> = ln (p ! k)" using assms by simp
  finally show ?thesis .
qed

lemma own_label_cross_entropy_eq:
  assumes "p \<noteq> []"
  shows "own_label_cross_entropy p = Some [- ln (p ! argmax p)]"
proof -
  have "same_shape [p] (nd_one_hot [argmax p] (length p))"
    by (simp add: same_shape_def nd_one_hot_def)
  from cross_entropy_same_shape [OF this] show ?thesis
    using one_hot_picks [OF argmax_less_length [OF assms]]
    by (simp add: own_label_cross_entropy_def nd_one_hot_def)
qed

lemma member_le_sum_list_real:
  "\<forall>y \<in> set xs. (0::real) \<le> y \<Longrightarrow> x \<in> set xs \<Longrightarrow> x \<le> sum_list xs"
proof (induction xs)
  case Nil
  then show ?case by simp
next
  case (Cons y ys)
  have "0 \<le> sum_list ys" using Cons.prems(1) by (intro sum_list_nonneg) simp
  with Cons show ?case by auto
qed

lemma prob_vector_entry:
  assumes "prob_vector p"
  shows "0 < p ! argmax p" and "p ! argmax p \<le> 1"
proof -
  from assms have ne: "p \<noteq> []" and pos: "\<forall>x \<in> set p. 0 < x" and s: "sum_list p = 1"
    by (simp_all add: prob_vector_def list_all_iff)
  from argmax_less_length [OF ne] have m: "p ! argmax p \<in> set p" by simp
  with pos show "0 < p ! argmax p" by blast
  from pos have "\<forall>y \<in> set p. 0 \<le> y" by (simp add: less_imp_le)
  from member_le_sum_list_real [OF this m] s show "p ! argmax p \<le> 1" by simp
qed

text \<open>
  Claim C9. For every probability vector p with positive entries, the cross-entropy of
  p against the one-hot label at p's own argmax is one number c, the negative logarithm
  of the probability of that class; c is non-negative, c is 0 exactly when that
  probability is 1 and positive whenever it is below 1, a vector q that gives its own
  class more probability has a smaller cross-entropy, and the cross-entropy falls below
  every positive bound once the probability is close enough to 1.
\<close>

theorem own_label_cross_entropy_properties:
  assumes "prob_vector p" and "prob_vector q"
  shows "\<exists>c d. own_label_cross_entropy p = Some [c] \<and> own_label_cross_entropy q = Some [d] \<and>
           c = - ln (p ! argmax p) \<and> 0 \<le> c \<and> (c = 0 \<longleftrightarrow> p ! argmax p = 1) \<and>
           (p ! argmax p < 1 \<longrightarrow> 0 < c) \<and>
           (p ! argmax p < q ! argmax q \<longrightarrow> d < c) \<and>
           (\<forall>\<epsilon> > 0. \<exists>\<delta> > 0. \<forall>r. prob_vector r \<and> 1 - \<delta> < r ! argmax r \<longrightarrow>
               (\<exists>e. own_label_cross_entropy r = Some [e] \<and> e < \<epsilon>))"
proof -
  let ?c = "- ln (p ! argmax p)" and ?d = "- ln (q ! argmax q)"
  from assms have ne: "p \<noteq> []" "q \<noteq> []" by (simp_all add: prob_vector_def)
  note pp = prob_vector_entry [OF assms(1)] and qq = prob_vector_entry [OF assms(2)]
  have 1: "own_label_cross_entropy p = Some [?c]" by (rule own_label_cross_entropy_eq [OF ne(1)])
  have 2: "own_label_cross_entropy q = Some [?d]" by (rule own_label_cross_entropy_eq [OF ne(2)])
  have 3: "0 \<le> ?c" using pp by simp
  have 4: "?c = 0 \<longleftrightarrow> p ! argmax p = 1" using pp by simp
  have 5: "p ! argmax p < 1 \<longrightarrow> 0 < ?c" using pp by simp
  have 6: "p ! argmax p < q ! argmax q \<longrightarrow> ?d < ?c" using pp qq by simp
  have 7: "\<exists>\<delta> > 0. \<forall>r. prob_vector r \<and> 1 - \<delta> < r ! argmax r \<longrightarrow>
               (\<exists>e. own_label_cross_entropy r = Some [e] \<and> e < \<epsilon>)" if "0 < \<epsilon>" for \<epsilon> :: real
  proof (intro exI conjI allI impI)
    show "0 < 1 - exp (- \<epsilon>)" using that by simp
  next
    fix r assume r: "prob_vector r \<and> 1 - (1 - exp (- \<epsilon>)) < r ! argmax r"
    then have "r \<noteq> []" by (simp add: prob_vector_def)
    then show "own_label_cross_entropy r = Some [- ln (r ! argmax r)]"
      by (rule own_label_cross_entropy_eq)
    from r have "exp (- \<epsilon>) < r ! argmax r" by simp
    moreover from r have "0 < r ! argmax r" using prob_vector_entry(1) by blast
    ultimately have "ln (exp (- \<epsilon>)) < ln (r ! argmax r)"
      by (subst ln_less_cancel_iff) simp_all
    then have "- \<epsilon> < ln (r ! argmax r)" by simp
    then show "- ln (r ! argmax r) < \<epsilon>" by simp
  qed
  from 1 2 3 4 5 6 7 show ?thesis by blast
qed

theorem own_label_cross_entropy_properties_witness:
  "\<exists>c d. own_label_cross_entropy [1/4, 3/4] = Some [c] \<and> own_label_cross_entropy [1/8, 7/8] = Some [d] \<and>
      c = - ln (3/4) \<and> 0 < c \<and> d < c"
proof -
  have p: "prob_vector [1/4, 3/4]" and q: "prob_vector [1/8, 7/8]"
    by (simp_all add: prob_vector_def)
  have a: "[1/4, 3/4 :: real] ! argmax [1/4, 3/4] = 3/4" "[1/8, 7/8 :: real] ! argmax [1/8, 7/8] = 7/8"
    by (simp_all add: argmax_def)
  from own_label_cross_entropy_properties [OF p q] obtain c d where
    "own_label_cross_entropy [1/4, 3/4] = Some [c]" "own_label_cross_entropy [1/8, 7/8] = Some [d]"
    "c = - ln ([1/4, 3/4] ! argmax [1/4, 3/4])"
    "[1/4, 3/4 :: real] ! argmax [1/4, 3/4] < 1 \<longrightarrow> 0 < c"
    "[1/4, 3/4 :: real] ! argmax [1/4, 3/4] < [1/8, 7/8] ! argmax [1/8, 7/8] \<longrightarrow> d < c"
    by blast
  then have "own_label_cross_entropy [1/4, 3/4] = Some [c] \<and> own_label_cross_entropy [1/8, 7/8] = Some [d] \<and>
      c = - ln (3/4) \<and> 0 < c \<and> d < c"
    by (simp add: a)
  then show ?thesis by blast
qed

section \<open>The moving average of the loss\<close>

lemma ewma_append:
  "ewma s seed avg (xs @ ys)
     = ewma s seed avg xs @ ewma s (seed \<and> xs = []) (last (avg # ewma s seed avg xs)) ys"
proof (induction xs arbitrary: seed avg)
  case Nil
  then show ?case by simp
next
  case (Cons x xs)
  show ?case by (simp add: Let_def Cons.IH)
qed

lemma length_ewma: "length (ewma s seed avg cs) = length cs"
  by (induction cs arbitrary: seed avg) (simp_all add: Let_def)

lemma ewma_first: "cs \<noteq> [] \<Longrightarrow> ewma s True avg cs ! 0 = cs ! 0"
  by (cases cs) (simp_all add: Let_def)

lemma ewma_step:
  "Suc k < length cs \<Longrightarrow>
     ewma s seed avg cs ! Suc k = s * cs ! Suc k + (1 - s) * ewma s seed avg cs ! k"
proof (induction cs arbitrary: k seed avg)
  case Nil
  then show ?case by simp
next
  case (Cons c cs)
  show ?case
  proof (cases k)
    case 0
    with Cons.prems obtain c' cs' where "cs = c' # cs'" by (cases cs) auto
    with 0 show ?thesis by (simp add: Let_def)
  next
    case (Suc k')
    with Cons.prems have "Suc k' < length cs" by simp
    from Cons.IH [OF this] Suc show ?thesis by (simp add: Let_def)
  qed
qed

lemma softmax_batch_loop_ewma:
  "softmax_batch_loop e i batches m
     = ewma smoothing_constant (i = 0 \<and> e = 0) m (map nd_mean batches)"
proof (induction batches arbitrary: i m)
  case Nil
  then show ?case by simp
next
  case (Cons loss rest)
  show ?case by (simp add: Let_def Cons.IH algebra_simps)
qed

lemma softmax_epoch_loop_later:
  "softmax_epoch_loop (Suc e) epochs m
     = ewma smoothing_constant False m (map nd_mean (concat epochs))"
proof (induction epochs arbitrary: e m)
  case Nil
  then show ?case by simp
next
  case (Cons batches rest)
  show ?case
    by (simp add: Let_def Cons.IH softmax_batch_loop_ewma ewma_append)
qed

lemma softmax_training_ewma:
  assumes "epochs \<noteq> []" and "hd epochs \<noteq> []"
  shows "softmax_training epochs = ewma smoothing_constant True 0 (map nd_mean (concat epochs))"
proof -
  from assms obtain batches rest where e: "epochs = batches # rest" and b: "batches \<noteq> []"
    by (cases epochs) auto
  show ?thesis unfolding softmax_training_def e
    using b by (simp add: Let_def softmax_batch_loop_ewma softmax_epoch_loop_later ewma_append)
qed

lemma linreg_batch_loop_ewma:
  "linreg_batch_loop e i batches m = ewma 0.01 (i = 0 \<and> e = 0) m batches"
proof (induction batches arbitrary: i m)
  case Nil
  then show ?case by simp
next
  case (Cons mse rest)
  show ?case by (simp add: Let_def Cons.IH nd_mean_def add.commute)
qed

lemma linreg_epoch_loop_later:
  "linreg_epoch_loop (Suc e) epochs m = ewma 0.01 False m (concat epochs)"
proof (induction epochs arbitrary: e m)
  case Nil
  then show ?case by simp
next
  case (Cons batches rest)
  show ?case
    by (simp add: Let_def Cons.IH linreg_batch_loop_ewma ewma_append)
qed

lemma linreg_training_ewma:
  assumes "epochs \<noteq> []" and "hd epochs \<noteq> []"
  shows "linreg_training epochs = ewma 0.01 True 0 (concat epochs)"
proof -
  from assms obtain batches rest where e: "epochs = batches # rest" and b: "batches \<noteq> []"
    by (cases epochs) auto
  show ?thesis unfolding linreg_training_def e
    using b by (simp add: Let_def linreg_batch_loop_ewma linreg_epoch_loop_later ewma_append)
qed

text \<open>
  Claim C4. In both training loops, when the first epoch has a batch: the moving loss has
  one value per batch; after the first batch of the first epoch it is that batch's mean
  loss (the initial 0 plays no part); after every later batch it is the smoothing
  constant (0.01) times that batch's mean loss plus one minus the smoothing constant
  times the moving loss before the batch. \<open>losses\<close> are the loss vectors of the softmax
  loop's batches, epoch by epoch, \<open>mses\<close> the mean squared errors of the linear
  regression loop's batches.
\<close>

theorem moving_loss_is_seeded_ewma:
  assumes "losses \<noteq> []" and "hd losses \<noteq> []" and "mses \<noteq> []" and "hd mses \<noteq> []"
  shows "length (softmax_training losses) = length (concat losses) \<and>
         softmax_training losses ! 0 = nd_mean (concat losses ! 0) \<and>
         (\<forall>k. Suc k < length (concat losses) \<longrightarrow>
            softmax_training losses ! Suc k
              = smoothing_constant * nd_mean (concat losses ! Suc k)
                + (1 - smoothing_constant) * softmax_training losses ! k) \<and>
         length (linreg_training mses) = length (concat mses) \<and>
         linreg_training mses ! 0 = concat mses ! 0 \<and>
         (\<forall>k. Suc k < length (concat mses) \<longrightarrow>
            linreg_training mses ! Suc k
              = 0.01 * concat mses ! Suc k + (1 - 0.01) * linreg_training mses ! k)"
proof -
  from assms(1,2) have ne: "concat losses \<noteq> []" by (cases losses) auto
  from assms(3,4) have ne': "concat mses \<noteq> []" by (cases mses) auto
  note s = softmax_training_ewma [OF assms(1,2)] and l = linreg_training_ewma [OF assms(3,4)]
  have 1: "length (softmax_training losses) = length (concat losses)"
    by (simp add: s length_ewma)
  have 2: "softmax_training losses ! 0 = nd_mean (concat losses ! 0)"
    using ne by (simp add: s ewma_first nth_map)
  have 3: "softmax_training losses ! Suc k
              = smoothing_constant * nd_mean (concat losses ! Suc k)
                + (1 - smoothing_constant) * softmax_training losses ! k"
    if "Suc k < length (concat losses)" for k
    using that by (simp add: s ewma_step)
  have 4: "length (linreg_training mses) = length (concat mses)"
    by (simp add: l length_ewma)
  have 5: "linreg_training mses ! 0 = concat mses ! 0"
    using ne' by (simp add: l ewma_first)
  have 6: "linreg_training mses ! Suc k
              = 0.01 * concat mses ! Suc k + (1 - 0.01) * linreg_training mses ! k"
    if "Suc k < length (concat mses)" for k
    using that by (simp only: l ewma_step)
  from 1 2 3 4 5 6 show ?thesis by blast
qed

theorem moving_loss_is_seeded_ewma_witness:
  "softmax_training [[[2, 4], [1]], [[5]]] ! 0 = 3 \<and>
   softmax_training [[[2, 4], [1]], [[5]]] ! 1 = smoothing_constant * 1 + (1 - smoothing_constant) * 3 \<and>
   softmax_training [[[2, 4], [1]], [[5]]] ! 2
     = smoothing_constant * 5 + (1 - smoothing_constant) * softmax_training [[[2, 4], [1]], [[5]]] ! 1 \<and>
   linreg_training [[7, 1], [2]] ! 0 = 7 \<and>
   linreg_training [[7, 1], [2]] ! 1 = 0.01 * 1 + (1 - 0.01) * 7 \<and>
   linreg_training [[7, 1], [2]] ! 2 = 0.01 * 2 + (1 - 0.01) * linreg_training [[7, 1], [2]] ! 1"
proof -
  have h: "[[[2, 4], [1]], [[5]]] \<noteq> ([] :: real list list list)" "hd [[[2, 4], [1]], [[5 :: real]]] \<noteq> []"
    "[[7, 1], [2]] \<noteq> ([] :: real list list)" "hd [[7, 1], [2 :: real]] \<noteq> []"
    by simp_all
  from moving_loss_is_seeded_ewma [OF h]
  have a: "softmax_training [[[2, 4], [1]], [[5]]] ! 0 = nd_mean (concat [[[2, 4], [1]], [[5]]] ! 0)"
    and b: "\<And>k. Suc k < length (concat [[[2, 4], [1]], [[5 :: real]]]) \<Longrightarrow>
            softmax_training [[[2, 4], [1]], [[5]]] ! Suc k
              = smoothing_constant * nd_mean (concat [[[2, 4], [1]], [[5]]] ! Suc k)
                + (1 - smoothing_constant) * softmax_training [[[2, 4], [1]], [[5]]] ! k"
    and c: "linreg_training [[7, 1], [2]] ! 0 = concat [[7, 1], [2]] ! 0"
    and d: "\<And>k. Suc k < length (concat [[7, 1], [2 :: real]]) \<Longrightarrow>
            linreg_training [[7, 1], [2]] ! Suc k
              = 0.01 * concat [[7, 1], [2]] ! Suc k + (1 - 0.01) * linreg_training [[7, 1], [2]] ! k"
    by blast+
  have a': "softmax_training [[[2, 4], [1]], [[5]]] ! 0 = 3" using a by (simp add: nd_mean_def)
  have b0: "softmax_training [[[2, 4], [1]], [[5]]] ! 1
      = smoothing_constant * 1 + (1 - smoothing_constant) * 3"
    using b [of 0] a' by (simp add: nd_mean_def)
  have b1: "softmax_training [[[2, 4], [1]], [[5]]] ! 2
     = smoothing_constant * 5 + (1 - smoothing_constant) * softmax_training [[[2, 4], [1]], [[5]]] ! 1"
    using b [of 1] by (simp add: nd_mean_def numeral_2_eq_2)
  have c': "linreg_training [[7, 1], [2]] ! 0 = 7" using c by simp
  have d0: "linreg_training [[7, 1], [2]] ! 1 = 0.01 * 1 + (1 - 0.01) * 7"
    using d [of 0] c' by simp
  have d1: "linreg_training [[7, 1], [2]] ! 2 = 0.01 * 2 + (1 - 0.01) * linreg_training [[7, 1], [2]] ! 1"
    using d [of 1] by (simp add: numeral_2_eq_2)
  from a' b0 b1 c' d0 d1 show ?thesis by blast
qed

section \<open>Accuracy: the loop's counters and the fraction of correct predictions\<close>









section \<open>The batch iterator: one pass, and a second pass without reset\<close>

lemma iterate_exhausted:
  assumes "length (examples it) \<le> cursor it"
  shows "iterate it = Some ([], it)"
  using assms by (subst iterate.simps) (simp add: next_batch_def)

lemma iterate_step:
  assumes "cursor it < length (examples it)"
    and "iterate (it\<lparr>cursor := cursor it + batch_size it\<rparr>) = Some (bs, it')"
  shows "iterate it = Some (take (batch_size it) (drop (cursor it) (examples it)) # bs, it')"
  using assms by (subst iterate.simps) (simp add: next_batch_def)

lemma iterate_pass:
  assumes "0 < batch_size it" and "cursor it \<le> length (examples it)"
    and "batch_size it dvd length (examples it) - cursor it"
  shows "\<exists>bs it'. iterate it = Some (bs, it') \<and>
           length bs = (length (examples it) - cursor it) div batch_size it \<and>
           it' = it\<lparr>cursor := length (examples it)\<rparr>"
  using assms
proof (induction "length (examples it) - cursor it" arbitrary: it rule: less_induct)
  case less
  let ?N = "length (examples it)" and ?B = "batch_size it" and ?c = "cursor it"
  show ?case
  proof (cases "?c < ?N")
    case False
    with less.prems(2) have eq: "?c = ?N" by simp
    then have "iterate it = Some ([], it)" by (simp add: iterate_exhausted)
    moreover have "it = it\<lparr>cursor := ?N\<rparr>" using eq by simp
    ultimately show ?thesis using eq by simp
  next
    case True
    from less.prems(3) obtain k where k: "?N - ?c = ?B * k" by (auto simp: dvd_def)
    with True less.prems(1) have kpos: "0 < k" by (cases k) auto
    then obtain j where j: "k = Suc j" by (cases k) auto
    let ?it = "it\<lparr>cursor := ?c + ?B\<rparr>"
    from k j have rest: "?N - (?c + ?B) = ?B * j" by simp
    from k j have "?B \<le> ?N - ?c" by simp
    with True have le: "?c + ?B \<le> ?N" by arith
    have "length (examples ?it) - cursor ?it < ?N - ?c" using True less.prems(1) by simp
    moreover have "0 < batch_size ?it" using less.prems(1) by simp
    moreover have "cursor ?it \<le> length (examples ?it)" using le by simp
    moreover have "batch_size ?it dvd length (examples ?it) - cursor ?it" using rest by simp
    ultimately obtain bs it' where run: "iterate ?it = Some (bs, it')"
      and len: "length bs = (length (examples ?it) - cursor ?it) div batch_size ?it"
      and fin: "it' = ?it\<lparr>cursor := length (examples ?it)\<rparr>"
      using less.hyps [of ?it] by blast
    from iterate_step [OF True run]
    have "iterate it = Some (take ?B (drop ?c (examples it)) # bs, it')" .
    moreover have "length (take ?B (drop ?c (examples it)) # bs) = (?N - ?c) div ?B"
      using len rest k j less.prems(1) by simp
    moreover have "it' = it\<lparr>cursor := ?N\<rparr>" using fin by simp
    ultimately show ?thesis by blast
  qed
qed

text \<open>
  Claim C3. For an iterator over N examples with batch size B, B positive and dividing
  N, and a reshuffling that keeps the number of examples: counting the batches of the
  pass after a reset gives N div B, and counting again on the iterator that pass left
  behind, without a reset, gives 0.
\<close>

theorem batches_per_pass:
  assumes "0 < batch_size it" and "batch_size it dvd length (examples it)"
    and "length (shuffle (examples it)) = length (examples it)"
  shows "\<exists>it'. count_batches (reset shuffle it)
                  = Some (length (examples it) div batch_size it, it') \<and>
               count_batches it' = Some (0, it')"
proof -
  let ?it = "reset shuffle it"
  have "0 < batch_size ?it" "cursor ?it \<le> length (examples ?it)"
    "batch_size ?it dvd length (examples ?it) - cursor ?it"
    using assms by (simp_all add: reset_def)
  from iterate_pass [OF this] obtain bs it' where run: "iterate ?it = Some (bs, it')"
    and len: "length bs = (length (examples ?it) - cursor ?it) div batch_size ?it"
    and fin: "it' = ?it\<lparr>cursor := length (examples ?it)\<rparr>"
    by blast
  from fin have "length (examples it') \<le> cursor it'" by simp
  then have "iterate it' = Some ([], it')" by (rule iterate_exhausted)
  then have "count_batches it' = Some (0, it')" by (simp add: count_batches_def)
  moreover have "count_batches ?it = Some (length (examples it) div batch_size it, it')"
    using run len assms(3) by (simp add: count_batches_def reset_def)
  ultimately show ?thesis by blast
qed

theorem batches_per_pass_witness:
  "\<exists>it'. count_batches (reset rev \<lparr>examples = [0..<10000], batch_size = 4, cursor = 7\<rparr>)
             = Some (2500, it') \<and> count_batches it' = Some (0, it')"
  using batches_per_pass [of "\<lparr>examples = [0..<10000], batch_size = 4, cursor = 7\<rparr>" rev]
  by simp

lemma iterate_example:
  "iterate (reset rev \<lparr>examples = [1, 2, 3, 4 :: nat], batch_size = 2, cursor = 7\<rparr>)
   = Some ([[4, 3], [2, 1]], \<lparr>examples = [4, 3, 2, 1], batch_size = 2, cursor = 4\<rparr>)"
  by (simp add: iterate.simps next_batch_def reset_def)

end
